theory Spec2Isabelle
  imports Main
begin

section \<open>Watch-mode rebuild scheduling of the build command\<close>

text \<open>
  The development embeds the watch branch of the \<^verbatim>\<open>build\<close> command
  (\<^verbatim>\<open>src/commands/build/action.js\<close>, the action registered with
  \<^verbatim>\<open>program.command('build')\<close>): the helper \<^verbatim>\<open>filterChangedBundles\<close>, the
  closure \<^verbatim>\<open>reBuild\<close>, the callback handed to \<^verbatim>\<open>project.watch\<close> with its
  debounce timer, and the promise chain held by the variable \<^verbatim>\<open>promise\<close>.
  It also embeds \<^verbatim>\<open>Project.resolve\<close> / \<^verbatim>\<open>Directory.resolve\<close> and
  \<^verbatim>\<open>WebManifestBundler.setup\<close>.
\<close>

subsection \<open>Values\<close>

type_synonym path = string

text \<open>A bundler object is known by its identity (the key of the \<^verbatim>\<open>WeakMap\<close>).\<close>

type_synonym bundler = nat

text \<open>
  The two kinds of value the callback of \<^verbatim>\<open>bundles.filter\<close> returns, and their
  truthiness: every array is truthy in JavaScript, the empty one too.
\<close>

datatype jsval = JBool bool | JArray "path list"

fun truthy :: "jsval \<Rightarrow> bool" where
  "truthy (JBool b) = b"
| "truthy (JArray xs) = True"

text \<open>
  A value thrown by \<^verbatim>\<open>build()\<close> or \<^verbatim>\<open>write()\<close>: an \<^verbatim>\<open>Error\<close> object, a string
  (the bundlers throw template strings), or nothing at all (a bare
  \<^verbatim>\<open>Promise.reject()\<close>). The \<^verbatim>\<open>catch\<close> block tests it with \<^verbatim>\<open>if (err)\<close>.
\<close>

datatype thrown = ErrorObject string | ThrownString string | ThrownUndefined

fun truthy_thrown :: "thrown \<Rightarrow> bool" where
  "truthy_thrown (ErrorObject m) = True"
| "truthy_thrown (ThrownString m) = (m \<noteq> [])"
| "truthy_thrown ThrownUndefined = False"

subsection \<open>filterChangedBundles\<close>

text \<open>
  \<^verbatim>\<open>
  function filterChangedBundles(bundles, files) {
      files = files.map((file) => realpathSync(file.path));
      return bundles.filter((bundle) => {
          if (!bundle.files) { return []; }
          return files.some((file) => bundle.files.includes(file));
      });
  }
  \<close>
  \<open>realpathSync\<close> is Node's function and is a parameter; \<open>files_of bundle\<close> reads the
  property \<^verbatim>\<open>bundle.files\<close> (\<open>None\<close> when it is unset). \<open>changed_callback\<close> is the
  arrow function given to \<^verbatim>\<open>filter\<close>, applied to the resolved paths.
  A file object is given by its path. \<open>realpathSync\<close> is taken as a total
  function, so the embedding covers the paths that resolve (Node's function
  throws for a path that does not exist), and every element of \<^verbatim>\<open>bundles\<close> is a
  bundler object.
\<close>

definition changed_callback :: "path list \<Rightarrow> path list option \<Rightarrow> jsval" where
  "changed_callback files bundle_files =
     (case bundle_files of
        None \<Rightarrow> JArray []
      | Some fs \<Rightarrow> JBool (list_ex (\<lambda>file. file \<in> set fs) files))"

definition filterChangedBundles ::
  "(path \<Rightarrow> path) \<Rightarrow> (bundler \<Rightarrow> path list option) \<Rightarrow> bundler list \<Rightarrow> path list \<Rightarrow> bundler list" where
  "filterChangedBundles realpathSync files_of bundles files =
     (let files' = map realpathSync files
      in filter (\<lambda>bundle. truthy (changed_callback files' (files_of bundle))) bundles)"

text \<open>
  The predicate passed as \<^verbatim>\<open>ignore\<close> to \<^verbatim>\<open>project.watch\<close>:
  \<^verbatim>\<open>(file) => !filterChangedBundles(bundlers, [file]).length\<close>.
\<close>

definition watch_ignore ::
  "(path \<Rightarrow> path) \<Rightarrow> (bundler \<Rightarrow> path list option) \<Rightarrow> bundler list \<Rightarrow> path \<Rightarrow> bool" where
  "watch_ignore realpathSync files_of bundlers file =
     (length (filterChangedBundles realpathSync files_of bundlers [file]) = 0)"

subsection \<open>The state of the watch closure\<close>

text \<open>
  \<open>status\<close> is the object kept per bundle in \<^verbatim>\<open>statuses\<close>; an absent
  \<^verbatim>\<open>running\<close> is falsy, an absent \<^verbatim>\<open>invalidate\<close> is \<open>None\<close>.
\<close>

record status =
  running :: bool
  invalidate :: "path list option"

definition empty_status :: status where
  "empty_status = \<lparr>running = False, invalidate = None\<rparr>"

text \<open>
  What can be suspended on a promise: the async callback given to
  \<^verbatim>\<open>promise.then\<close> (it will settle the promise with the given number), the rest of
  \<^verbatim>\<open>reBuild\<close> after its \<^verbatim>\<open>await promise\<close>, and the rest of the timer callback after
  its \<^verbatim>\<open>await promise\<close>.
\<close>

datatype cont =
    RunJob nat bundler "path list"
  | ReBuildResume bundler
  | FlushResume "path list"

text \<open>
  What reaches \<^verbatim>\<open>app.logger\<close> (\<^verbatim>\<open>info\<close> for a removed or a changed file,
  \<^verbatim>\<open>newline\<close>, \<^verbatim>\<open>error\<close>), and the rejection of a promise that nobody handles.
\<close>

datatype log_entry = Removed path | Changed path | Newline | Error thrown | Uncaught string

text \<open>
  Promises are numbered in the order of their creation: number 0 is the initial
  \<^verbatim>\<open>Promise.resolve()\<close>, and every \<^verbatim>\<open>promise.then(...)\<close> creates the next one. The
  fields \<open>chained\<close> and \<open>started\<close> only record history: the jobs handed to
  \<^verbatim>\<open>promise.then\<close>, and the calls of \<^verbatim>\<open>bundle.build(...invalidate)\<close>.
  \<open>inflight\<close> holds the jobs whose \<^verbatim>\<open>build()\<close> has been called and whose
  \<^verbatim>\<open>write()\<close> has not yet returned or thrown.
\<close>

record watch_state =
  statuses :: "bundler \<Rightarrow> status option"
  collectedFiles :: "path list"
  promise :: nat
  timeout :: "nat option"
  settled :: "nat \<Rightarrow> bool"
  reactions :: "nat \<Rightarrow> cont list"
  microtasks :: "cont list"
  bundle_files :: "bundler \<Rightarrow> path list option"
  inflight :: "(nat \<times> bundler \<times> path list) list"
  chained :: "(bundler \<times> path list) list"
  started :: "(bundler \<times> path list) list"
  logger :: "log_entry list"

definition init_state :: "(bundler \<Rightarrow> path list option) \<Rightarrow> watch_state" where
  "init_state files0 =
     \<lparr>statuses = (\<lambda>b. None), collectedFiles = [], promise = 0, timeout = None,
      settled = (\<lambda>n. n = 0), reactions = (\<lambda>n. []), microtasks = [],
      bundle_files = files0, inflight = [], chained = [], started = [], logger = []\<rparr>"

subsection \<open>Promises\<close>

text \<open>
  \<^verbatim>\<open>promise = promise.then(async () => { ... })\<close>: a new pending promise; its
  callback is queued as a microtask when the old promise is already settled, and
  registered on the old promise otherwise.
\<close>

definition then_job :: "bundler \<Rightarrow> path list \<Rightarrow> watch_state \<Rightarrow> watch_state" where
  "then_job b ivs s =
     (let p = promise s; q = Suc p; k = RunJob q b ivs;
          s' = s\<lparr>promise := q, settled := (settled s)(q := False),
                 reactions := (reactions s)(q := []), chained := chained s @ [(b, ivs)]\<rparr>
      in if settled s p then s'\<lparr>microtasks := microtasks s @ [k]\<rparr>
         else s'\<lparr>reactions := (reactions s')(p := reactions s p @ [k])\<rparr>)"

text \<open>\<^verbatim>\<open>await promise\<close> with the continuation \<open>k\<close>.\<close>

definition await_promise :: "cont \<Rightarrow> watch_state \<Rightarrow> watch_state" where
  "await_promise k s =
     (let p = promise s
      in if settled s p then s\<lparr>microtasks := microtasks s @ [k]\<rparr>
         else s\<lparr>reactions := (reactions s)(p := reactions s p @ [k])\<rparr>)"

subsection \<open>reBuild\<close>

text \<open>
  \<^verbatim>\<open>
  const reBuild = async (bundle, files) => {
      let status = statuses.get(bundle) || {};
      if (files) { status.invalidate = files; }
      statuses.set(bundle, status);
      if (status.running && !status.invalidate || status.invalidate.length === 0) { return; }
      let invalidate = status.invalidate;
      status.invalidate = [];
      status.running = true;
      statuses.set(bundle, status);
      promise = promise.then(async () => { ... });
      await promise;
      status.running = false;
      statuses.set(bundle, status);
      reBuild(bundle);
  };
  \<close>
  \<open>reBuild\<close> is the part up to \<^verbatim>\<open>await promise\<close>. The test reads
  \<^verbatim>\<open>(running && !invalidate) || invalidate.length === 0\<close>: with \<^verbatim>\<open>invalidate\<close>
  unset and \<^verbatim>\<open>running\<close> falsy the second operand reads \<^verbatim>\<open>length\<close> of
  \<^verbatim>\<open>undefined\<close>, a \<^verbatim>\<open>TypeError\<close> that rejects the promise of this call, which
  nobody awaits.
\<close>

definition status_of :: "watch_state \<Rightarrow> bundler \<Rightarrow> status" where
  "status_of s b = (case statuses s b of Some st \<Rightarrow> st | None \<Rightarrow> empty_status)"

definition reBuild :: "bundler \<Rightarrow> path list option \<Rightarrow> watch_state \<Rightarrow> watch_state" where
  "reBuild b files s =
     (let status0 = status_of s b;
          status1 = (case files of Some fs \<Rightarrow> status0\<lparr>invalidate := Some fs\<rparr> | None \<Rightarrow> status0);
          s1 = s\<lparr>statuses := (statuses s)(b \<mapsto> status1)\<rparr>
      in case invalidate status1 of
           None \<Rightarrow>
             if running status1 then s1
             else s1\<lparr>logger := logger s1 @ [Uncaught ''TypeError'']\<rparr>
         | Some ivs \<Rightarrow>
             if length ivs = 0 then s1
             else
               let status2 = status1\<lparr>invalidate := Some [], running := True\<rparr>;
                   s2 = s1\<lparr>statuses := (statuses s1)(b \<mapsto> status2)\<rparr>
               in await_promise (ReBuildResume b) (then_job b ivs s2))"

subsection \<open>Continuations and the microtask queue\<close>

text \<open>
  \<open>RunJob\<close>: the async callback starts and calls \<^verbatim>\<open>bundle.build(...invalidate)\<close>.
  \<open>ReBuildResume\<close>: \<^verbatim>\<open>status.running = false; statuses.set(bundle, status);
  reBuild(bundle)\<close>; the status is the object of the map, since \<^verbatim>\<open>reBuild\<close> stored
  it there before awaiting and never replaces it by another object.
  \<open>FlushResume\<close>: the timer callback after \<^verbatim>\<open>await promise\<close>:
  \<^verbatim>\<open>
  const bundlesWithChanges = filterChangedBundles(bundlers, files);
  if (bundlesWithChanges.length === 0) { return true; }
  app.logger.newline();
  for (let i = 0; i < bundlesWithChanges.length; i++) { reBuild(bundlesWithChanges[i], files); }
  \<close>
\<close>

fun exec_cont :: "bundler list \<Rightarrow> (path \<Rightarrow> path) \<Rightarrow> cont \<Rightarrow> watch_state \<Rightarrow> watch_state" where
  "exec_cont bundlers realpathSync (RunJob q b ivs) s =
     s\<lparr>inflight := inflight s @ [(q, b, ivs)], started := started s @ [(b, ivs)]\<rparr>"
| "exec_cont bundlers realpathSync (ReBuildResume b) s =
     reBuild b None (s\<lparr>statuses := (statuses s)(b \<mapsto> (status_of s b)\<lparr>running := False\<rparr>)\<rparr>)"
| "exec_cont bundlers realpathSync (FlushResume files) s =
     (let bundlesWithChanges = filterChangedBundles realpathSync (bundle_files s) bundlers files
      in if length bundlesWithChanges = 0 then s
         else fold (\<lambda>b. reBuild b (Some files)) bundlesWithChanges
                (s\<lparr>logger := logger s @ [Newline]\<rparr>))"

text \<open>The weight of a continuation bounds the microtasks its execution can queue.\<close>

fun weight :: "nat \<Rightarrow> cont \<Rightarrow> nat" where
  "weight n (RunJob q b ivs) = 1"
| "weight n (ReBuildResume b) = 2"
| "weight n (FlushResume files) = Suc (Suc n)"

definition queue_weight :: "nat \<Rightarrow> watch_state \<Rightarrow> nat" where
  "queue_weight n s = sum_list (map (weight n) (microtasks s))"

text \<open>The microtask queue is run until it is empty, first in, first out.\<close>

function drain :: "bundler list \<Rightarrow> (path \<Rightarrow> path) \<Rightarrow> watch_state \<Rightarrow> watch_state" where
  "drain bundlers realpathSync s =
     (case microtasks s of
        [] \<Rightarrow> s
      | k # ks \<Rightarrow> drain bundlers realpathSync (exec_cont bundlers realpathSync k (s\<lparr>microtasks := ks\<rparr>)))"
  by pat_completeness auto
termination
proof (relation "measure (\<lambda>(bundlers, realpathSync, s). queue_weight (length bundlers) s)")
  show "wf (measure (\<lambda>(bundlers, realpathSync, s). queue_weight (length bundlers) s))"
    by simp
next
  fix bundlers :: "bundler list" and realpathSync :: "path \<Rightarrow> path"
    and s :: watch_state and k :: cont and ks :: "cont list"
  assume q: "microtasks s = k # ks"
  let ?n = "length bundlers"
  have rb: "queue_weight ?n (reBuild b f t) \<le> Suc (queue_weight ?n t)" for b f t
    by (auto simp: reBuild_def then_job_def await_promise_def queue_weight_def Let_def
             split: option.splits)
  have fl: "queue_weight ?n (fold (\<lambda>b. reBuild b f) bs t) \<le> length bs + queue_weight ?n t"
    for bs f t
  proof (induction bs arbitrary: t)
    case Nil
    show ?case by simp
  next
    case (Cons b bs)
    have "queue_weight ?n (fold (\<lambda>b. reBuild b f) bs (reBuild b f t))
            \<le> length bs + queue_weight ?n (reBuild b f t)"
      by (rule Cons.IH)
    also have "\<dots> \<le> length bs + Suc (queue_weight ?n t)"
      using rb [of b f t] by simp
    finally show ?case by simp
  qed
  have len: "length (filterChangedBundles realpathSync ff bundlers fs) \<le> ?n" for ff fs
    by (simp add: filterChangedBundles_def)
  have "queue_weight ?n (exec_cont bundlers realpathSync k (s\<lparr>microtasks := ks\<rparr>))
          < weight ?n k + queue_weight ?n (s\<lparr>microtasks := ks\<rparr>)"
  proof (cases k)
    case (RunJob q b ivs)
    then show ?thesis by (simp add: queue_weight_def)
  next
    case (ReBuildResume b)
    have "queue_weight ?n (exec_cont bundlers realpathSync k (s\<lparr>microtasks := ks\<rparr>))
            \<le> Suc (queue_weight ?n (s\<lparr>microtasks := ks\<rparr>))"
      using rb [of b None "s\<lparr>microtasks := ks,
          statuses := (statuses s)(b \<mapsto> (status_of (s\<lparr>microtasks := ks\<rparr>) b)\<lparr>running := False\<rparr>)\<rparr>"]
      by (simp add: ReBuildResume queue_weight_def)
    then show ?thesis by (simp add: ReBuildResume)
  next
    case (FlushResume files)
    let ?t = "s\<lparr>microtasks := ks\<rparr>"
    let ?bw = "filterChangedBundles realpathSync (bundle_files ?t) bundlers files"
    show ?thesis
    proof (cases "length ?bw = 0")
      case True
      then show ?thesis by (simp add: FlushResume Let_def)
    next
      case False
      have "queue_weight ?n (fold (\<lambda>b. reBuild b (Some files)) ?bw (?t\<lparr>logger := logger ?t @ [Newline]\<rparr>))
              \<le> length ?bw + queue_weight ?n (?t\<lparr>logger := logger ?t @ [Newline]\<rparr>)"
        by (rule fl)
      also have "\<dots> \<le> ?n + queue_weight ?n ?t"
        using len [of "bundle_files ?t" files] by (simp add: queue_weight_def)
      finally show ?thesis using False by (simp add: FlushResume Let_def)
    qed
  qed
  then show "((bundlers, realpathSync, exec_cont bundlers realpathSync k (s\<lparr>microtasks := ks\<rparr>)),
              (bundlers, realpathSync, s)) \<in> measure (\<lambda>(bundlers, realpathSync, s). queue_weight (length bundlers) s)"
    using q by (simp add: queue_weight_def)
qed

declare drain.simps [simp del]

subsection \<open>The watcher callback and the debounce timer\<close>

text \<open>
  \<^verbatim>\<open>
  async (eventType, file) => {
      if (eventType === 'unlink') { app.logger.info(`${file.path} removed`); }
      else { app.logger.info(`${project.relative(file)} changed`); }
      collectedFiles.push(file);
      clearTimeout(timeout);
      timeout = setTimeout(async () => { ... }, 200);
  }
  \<close>
  Time is counted in milliseconds; \<open>timeout\<close> holds the instant at which the armed
  timer expires. Clearing the old timer and arming a new one overwrites it.
\<close>

datatype event_type = Unlink | Modify

definition on_change :: "nat \<Rightarrow> event_type \<Rightarrow> path \<Rightarrow> watch_state \<Rightarrow> watch_state" where
  "on_change now eventType file s =
     s\<lparr>logger := logger s @ [if eventType = Unlink then Removed file else Changed file],
       collectedFiles := collectedFiles s @ [file],
       timeout := Some (now + 200)\<rparr>"

text \<open>
  The timer callback up to its \<^verbatim>\<open>await promise\<close>:
  \<^verbatim>\<open>
  const files = collectedFiles.slice(0);
  collectedFiles.splice(0, collectedFiles.length);
  await promise;
  \<close>
\<close>

definition on_timeout :: "watch_state \<Rightarrow> watch_state" where
  "on_timeout s =
     (let files = collectedFiles s
      in await_promise (FlushResume files) (s\<lparr>collectedFiles := [], timeout := None\<rparr>))"

text \<open>
  Modelled from the spec: \<^verbatim>\<open>project.watch\<close> (its code is not among the sources)
  invokes the callback for every file-system event whose path does not match the
  ignore predicate, and does nothing for the others.
\<close>

definition project_watch ::
  "bundler list \<Rightarrow> (path \<Rightarrow> path) \<Rightarrow> nat \<Rightarrow> event_type \<Rightarrow> path \<Rightarrow> watch_state \<Rightarrow> watch_state" where
  "project_watch bundlers realpathSync now eventType file s =
     (if watch_ignore realpathSync (bundle_files s) bundlers file then s
      else on_change now eventType file s)"

subsection \<open>The end of a job\<close>

text \<open>
  \<^verbatim>\<open>
  try { await bundle.build(...invalidate); await bundle.write(); }
  catch (err) { if (err) { app.logger.error(err); } }
  \<close>
  Whatever the outcome, the async callback returns, so the promise created by
  \<^verbatim>\<open>then\<close> is fulfilled and the continuations registered on it are queued in the
  order of their registration.
\<close>

datatype outcome = Completed | BuildThrew thrown | WriteThrew thrown

fun catch_log :: "outcome \<Rightarrow> log_entry list" where
  "catch_log Completed = []"
| "catch_log (BuildThrew err) = (if truthy_thrown err then [Error err] else [])"
| "catch_log (WriteThrew err) = (if truthy_thrown err then [Error err] else [])"

definition job_settled :: "nat \<Rightarrow> outcome \<Rightarrow> watch_state \<Rightarrow> watch_state" where
  "job_settled q result s =
     (if q \<in> fst ` set (inflight s)
      then s\<lparr>inflight := filter (\<lambda>j. fst j \<noteq> q) (inflight s),
             logger := logger s @ catch_log result,
             settled := (settled s)(q := True),
             microtasks := microtasks s @ reactions s q,
             reactions := (reactions s)(q := [])\<rparr>
      else s)"

subsection \<open>The event loop\<close>

text \<open>
  What the environment does: the file system reports an event, the running job of
  promise \<open>q\<close> ends, a bundler replaces its \<^verbatim>\<open>files\<close> (bundlers do so while they
  build), or time passes. One turn of the loop first runs the timer callback when
  the timer is due, then handles the input; the microtask queue is emptied after
  each of the two.
\<close>

datatype input =
    FsEvent event_type path
  | JobSettled nat outcome
  | SetFiles bundler "path list option"
  | Tick

fun handle :: "bundler list \<Rightarrow> (path \<Rightarrow> path) \<Rightarrow> nat \<Rightarrow> input \<Rightarrow> watch_state \<Rightarrow> watch_state" where
  "handle bundlers realpathSync now (FsEvent eventType file) s =
     project_watch bundlers realpathSync now eventType file s"
| "handle bundlers realpathSync now (JobSettled q result) s = job_settled q result s"
| "handle bundlers realpathSync now (SetFiles b fs) s = s\<lparr>bundle_files := (bundle_files s)(b := fs)\<rparr>"
| "handle bundlers realpathSync now Tick s = s"

definition timer_due :: "nat \<Rightarrow> watch_state \<Rightarrow> bool" where
  "timer_due now s = (case timeout s of None \<Rightarrow> False | Some d \<Rightarrow> d \<le> now)"

definition expire :: "bundler list \<Rightarrow> (path \<Rightarrow> path) \<Rightarrow> nat \<Rightarrow> watch_state \<Rightarrow> watch_state" where
  "expire bundlers realpathSync now s =
     (if timer_due now s then drain bundlers realpathSync (on_timeout s) else s)"

definition step ::
  "bundler list \<Rightarrow> (path \<Rightarrow> path) \<Rightarrow> nat \<times> input \<Rightarrow> watch_state \<Rightarrow> watch_state" where
  "step bundlers realpathSync ev s =
     drain bundlers realpathSync
       (handle bundlers realpathSync (fst ev) (snd ev) (expire bundlers realpathSync (fst ev) s))"

definition run ::
  "bundler list \<Rightarrow> (path \<Rightarrow> path) \<Rightarrow> (nat \<times> input) list \<Rightarrow> watch_state \<Rightarrow> watch_state" where
  "run bundlers realpathSync evs s = fold (step bundlers realpathSync) evs s"

text \<open>The states the watch closure can be in: the initial one and those a turn leads to.\<close>

inductive reachable :: "bundler list \<Rightarrow> (path \<Rightarrow> path) \<Rightarrow> watch_state \<Rightarrow> bool"
  for bundlers :: "bundler list" and realpathSync :: "path \<Rightarrow> path" where
  reachable_init: "reachable bundlers realpathSync (init_state files0)"
| reachable_step: "reachable bundlers realpathSync s \<Longrightarrow>
     reachable bundlers realpathSync (step bundlers realpathSync ev s)"

subsection \<open>Invariants of the promise chain\<close>

text \<open>
  The promises created so far are settled up to some number and pending above it
  (\<open>closed_down\<close>). A job is \<open>ready\<close> when its own promise is pending and the
  one before it is settled. The callback of promise \<open>Suc i\<close> waits on promise
  \<open>i\<close> only (\<open>jobs_next\<close>), at most one callback per promise (\<open>one_each\<close>).
\<close>

fun is_job :: "cont \<Rightarrow> bool" where
  "is_job (RunJob q b ivs) = True"
| "is_job (ReBuildResume b) = False"
| "is_job (FlushResume files) = False"

definition closed_down :: "(nat \<Rightarrow> bool) \<Rightarrow> nat \<Rightarrow> bool" where
  "closed_down st p \<longleftrightarrow> st 0 \<and> (\<forall>i j. j \<le> i \<and> i \<le> p \<and> st i \<longrightarrow> st j)"

definition ready :: "(nat \<Rightarrow> bool) \<Rightarrow> nat \<Rightarrow> nat \<Rightarrow> bool" where
  "ready st p q \<longleftrightarrow> 0 < q \<and> q \<le> p \<and> st (q - 1) \<and> \<not> st q"

definition jobs_ready :: "(nat \<Rightarrow> bool) \<Rightarrow> nat \<Rightarrow> cont list \<Rightarrow> bool" where
  "jobs_ready st p ks \<longleftrightarrow> (\<forall>q b ivs. RunJob q b ivs \<in> set ks \<longrightarrow> ready st p q)"

definition flight_ready ::
  "(nat \<Rightarrow> bool) \<Rightarrow> nat \<Rightarrow> (nat \<times> bundler \<times> path list) list \<Rightarrow> bool" where
  "flight_ready st p fl \<longleftrightarrow> (\<forall>q b ivs. (q, b, ivs) \<in> set fl \<longrightarrow> ready st p q)"

definition jobs_next :: "nat \<Rightarrow> (nat \<Rightarrow> cont list) \<Rightarrow> bool" where
  "jobs_next p rs \<longleftrightarrow> (\<forall>i q b ivs. RunJob q b ivs \<in> set (rs i) \<longrightarrow> q = Suc i \<and> i < p)"

definition one_each :: "(nat \<Rightarrow> cont list) \<Rightarrow> bool" where
  "one_each rs \<longleftrightarrow> (\<forall>i. length (filter is_job (rs i)) \<le> 1)"

definition excl_inv :: "watch_state \<Rightarrow> bool" where
  "excl_inv s \<longleftrightarrow>
     closed_down (settled s) (promise s)
   \<and> jobs_next (promise s) (reactions s)
   \<and> one_each (reactions s)
   \<and> jobs_ready (settled s) (promise s) (microtasks s)
   \<and> flight_ready (settled s) (promise s) (inflight s)
   \<and> length (filter is_job (microtasks s)) + length (inflight s) \<le> 1"

text \<open>
  The history agrees with the chain: promise \<open>q\<close> belongs to the \<open>q\<close>-th job
  chained, the jobs started are the first jobs chained, in that order, and the
  job in flight is the last one started.
\<close>

definition jobs_recorded :: "(bundler \<times> path list) list \<Rightarrow> cont list \<Rightarrow> bool" where
  "jobs_recorded ch ks \<longleftrightarrow> (\<forall>q b ivs. RunJob q b ivs \<in> set ks \<longrightarrow> ch ! (q - 1) = (b, ivs))"

definition jobs_numbered :: "nat \<Rightarrow> cont list \<Rightarrow> bool" where
  "jobs_numbered n ks \<longleftrightarrow> (\<forall>q b ivs. RunJob q b ivs \<in> set ks \<longrightarrow> q = Suc n)"

definition order_inv :: "watch_state \<Rightarrow> bool" where
  "order_inv s \<longleftrightarrow>
     length (chained s) = promise s
   \<and> (\<forall>i. jobs_recorded (chained s) (reactions s i))
   \<and> jobs_recorded (chained s) (microtasks s)
   \<and> jobs_numbered (length (started s)) (microtasks s)
   \<and> (\<forall>q b ivs. (q, b, ivs) \<in> set (inflight s) \<longrightarrow>
         chained s ! (q - 1) = (b, ivs) \<and> length (started s) = q)
   \<and> (\<forall>j \<le> promise s. settled s j \<longrightarrow> j \<le> length (started s))
   \<and> length (started s) \<le> promise s
   \<and> started s = take (length (started s)) (chained s)"

text \<open>No status keeps a path in \<^verbatim>\<open>invalidate\<close>.\<close>

definition no_pending :: "watch_state \<Rightarrow> bool" where
  "no_pending s \<longleftrightarrow>
     (\<forall>b st fs. statuses s b = Some st \<longrightarrow> invalidate st = Some fs \<longrightarrow> fs = [])"

text \<open>
  The jobs chained are jobs of bundlers of the list; a job has ended when its
  promise is settled and it is not in flight.
\<close>

definition chained_known :: "bundler list \<Rightarrow> watch_state \<Rightarrow> bool" where
  "chained_known bundlers s \<longleftrightarrow> no_pending s \<and> (\<forall>job \<in> set (chained s). fst job \<in> set bundlers)"


subsection \<open>Untracked paths and bursts of saves\<close>

text \<open>
  A file is untracked when every bundler has a \<^verbatim>\<open>files\<close> list and none of the
  lists contains the resolved path of the file. An input is quiet when it is not
  a change of a tracked file; a bundler that replaces its \<^verbatim>\<open>files\<close> is not quiet.
\<close>

definition untracked ::
  "(path \<Rightarrow> path) \<Rightarrow> (bundler \<Rightarrow> path list option) \<Rightarrow> bundler list \<Rightarrow> path \<Rightarrow> bool" where
  "untracked realpathSync files_of bundlers file =
     list_all (\<lambda>b. case files_of b of None \<Rightarrow> False | Some fs \<Rightarrow> realpathSync file \<notin> set fs) bundlers"

fun quiet_input ::
  "(path \<Rightarrow> path) \<Rightarrow> (bundler \<Rightarrow> path list option) \<Rightarrow> bundler list \<Rightarrow> input \<Rightarrow> bool" where
  "quiet_input realpathSync files_of bundlers (FsEvent eventType file) =
     untracked realpathSync files_of bundlers file"
| "quiet_input realpathSync files_of bundlers (JobSettled q result) = True"
| "quiet_input realpathSync files_of bundlers (SetFiles b fs) = False"
| "quiet_input realpathSync files_of bundlers Tick = True"



subsection \<open>Example projects\<close>

text \<open>
  Bundler 0 builds \<^verbatim>\<open>src/a.js\<close>, bundler 1 builds \<^verbatim>\<open>src/b.css\<close>, and both depend
  on \<^verbatim>\<open>src/util.js\<close>.
\<close>

definition shared_util :: "bundler \<Rightarrow> path list option" where
  "shared_util b =
     (if b = 0 then Some [''/p/src/a.js'', ''/p/src/util.js'']
      else Some [''/p/src/b.css'', ''/p/src/util.js''])"



text \<open>
  A file system in which \<^verbatim>\<open>/p/link\<close> is a symbolic link to \<^verbatim>\<open>/p/src\<close>, as
  far as \<^verbatim>\<open>util.js\<close> is concerned.
\<close>

definition via_link :: "path \<Rightarrow> path" where
  "via_link file = (if file = ''/p/link/util.js'' then ''/p/src/util.js'' else file)"


text \<open>One save of \<^verbatim>\<open>src/util.js\<close> and the expiry of the timer.\<close>

definition one_save :: "(nat \<times> input) list" where
  "one_save = [(0, FsEvent Modify ''/p/src/util.js''), (200, Tick)]"

subsection \<open>The build action before the watcher\<close>

text \<open>
  \<^verbatim>\<open>
  await Promise.all(bundlers.filter(Boolean).map((bundler) => bundler.toPromise()));
  if (options.watch) { ... project.watch({ ignore: ... }, async (eventType, file) => { ... }); }
  \<close>
  \<^verbatim>\<open>toPromise\<close> belongs to the \<^verbatim>\<open>Bundler\<close> base class, which is not among the
  sources: how the promise of each bundler settles is an input. \<^verbatim>\<open>Promise.all\<close>
  rejects with the first rejection and is fulfilled once every promise is
  fulfilled; a rejection makes the action throw, so the watch branch is never
  reached. Before \<^verbatim>\<open>project.watch\<close> is called no file-system event is delivered.
\<close>

datatype settlement = Pending | Fulfilled | Rejected thrown

record action_state =
  initial :: "bundler \<Rightarrow> settlement"
  rejected :: "thrown option"
  watcher :: "watch_state option"

datatype action_input =
    InitialSettled bundler settlement
  | Loop "nat \<times> input"

definition action_start :: action_state where
  "action_start = \<lparr>initial = (\<lambda>b. Pending), rejected = None, watcher = None\<rparr>"

definition all_fulfilled :: "bundler list \<Rightarrow> (bundler \<Rightarrow> settlement) \<Rightarrow> bool" where
  "all_fulfilled bundlers st = list_all (\<lambda>b. st b = Fulfilled) bundlers"

text \<open>
  A settlement is recorded once per promise. The watcher is attached at the
  moment \<^verbatim>\<open>Promise.all\<close> is fulfilled, with the \<^verbatim>\<open>files\<close> the bundlers have then.
\<close>

definition initial_settled ::
  "bool \<Rightarrow> bundler list \<Rightarrow> (bundler \<Rightarrow> path list option) \<Rightarrow> bundler \<Rightarrow> settlement
     \<Rightarrow> action_state \<Rightarrow> action_state" where
  "initial_settled watch bundlers files0 b r a =
     (if initial a b \<noteq> Pending \<or> r = Pending \<or> rejected a \<noteq> None \<or> watcher a \<noteq> None then a
      else
        let a1 = a\<lparr>initial := (initial a)(b := r)\<rparr>
        in case r of
             Rejected err \<Rightarrow> a1\<lparr>rejected := Some err\<rparr>
           | _ \<Rightarrow>
               if all_fulfilled bundlers (initial a1) \<and> watch
               then a1\<lparr>watcher := Some (init_state files0)\<rparr>
               else a1)"

fun action_step ::
  "bool \<Rightarrow> bundler list \<Rightarrow> (path \<Rightarrow> path) \<Rightarrow> (bundler \<Rightarrow> path list option)
     \<Rightarrow> action_input \<Rightarrow> action_state \<Rightarrow> action_state" where
  "action_step watch bundlers realpathSync files0 (InitialSettled b r) a =
     initial_settled watch bundlers files0 b r a"
| "action_step watch bundlers realpathSync files0 (Loop ev) a =
     (case watcher a of
        None \<Rightarrow> a
      | Some s \<Rightarrow> a\<lparr>watcher := Some (step bundlers realpathSync ev s)\<rparr>)"

definition action_run ::
  "bool \<Rightarrow> bundler list \<Rightarrow> (path \<Rightarrow> path) \<Rightarrow> (bundler \<Rightarrow> path list option)
     \<Rightarrow> action_input list \<Rightarrow> action_state \<Rightarrow> action_state" where
  "action_run watch bundlers realpathSync files0 ins a =
     fold (action_step watch bundlers realpathSync files0) ins a"

text \<open>
  What holds of the action once the watcher is attached.
\<close>

definition action_ok :: "bool \<Rightarrow> bundler list \<Rightarrow> (path \<Rightarrow> path) \<Rightarrow> action_state \<Rightarrow> bool" where
  "action_ok watch bundlers realpathSync a \<longleftrightarrow>
     (\<forall>s. watcher a = Some s \<longrightarrow>
        watch \<and> rejected a = None \<and> all_fulfilled bundlers (initial a)
        \<and> reachable bundlers realpathSync s)"

text \<open>
  An example: the two bundlers finish their initial builds, a file is saved
  before the second one has finished, and again afterwards.
\<close>

definition startup :: "action_input list" where
  "startup =
     [InitialSettled 0 Fulfilled,
      Loop (0, FsEvent Modify ''/p/src/util.js''),
      InitialSettled 1 Fulfilled,
      Loop (300, FsEvent Modify ''/p/src/util.js''),
      Loop (500, Tick)]"

section \<open>Entry resolution\<close>











section \<open>WebManifestBundler.setup\<close>










section \<open>Properties of filterChangedBundles\<close>

lemma filterChangedBundles_mem:
  "b \<in> set (filterChangedBundles realpathSync files_of bundlers files) \<longleftrightarrow>
     b \<in> set bundlers \<and>
     (case files_of b of None \<Rightarrow> True
      | Some fs \<Rightarrow> \<exists>file \<in> set files. realpathSync file \<in> set fs)"
  by (auto simp: filterChangedBundles_def changed_callback_def list_ex_iff split: option.splits)

lemma filterChangedBundles_length:
  "length (filterChangedBundles realpathSync files_of bundlers files) \<le> length bundlers"
  by (simp add: filterChangedBundles_def)

text \<open>
  C10. A bundler whose \<^verbatim>\<open>files\<close> is unset makes the callback of \<^verbatim>\<open>filter\<close> return
  the empty array, which is truthy: whatever the list of changed files, the bundler
  is part of the result of \<open>filterChangedBundles\<close>, and the ignore predicate of the
  watcher is false for every file.
\<close>

theorem unset_files_always_selected:
  assumes "bundle \<in> set bundlers" and "files_of bundle = None"
  shows "changed_callback (map realpathSync files) (files_of bundle) = JArray []
       \<and> truthy (JArray [])
       \<and> bundle \<in> set (filterChangedBundles realpathSync files_of bundlers files)
       \<and> \<not> watch_ignore realpathSync files_of bundlers file"
proof -
  have sel: "bundle \<in> set (filterChangedBundles realpathSync files_of bundlers fs)" for fs
    using assms by (simp add: filterChangedBundles_mem)
  have "filterChangedBundles realpathSync files_of bundlers [file] \<noteq> []"
    using sel [of "[file]"] by auto
  then show ?thesis
    using assms sel by (simp add: changed_callback_def watch_ignore_def)
qed

theorem unset_files_always_selected_witness:
  "(0::nat) \<in> set [0] \<and> (\<lambda>b::nat. None :: path list option) 0 = None
   \<and> 0 \<in> set (filterChangedBundles id (\<lambda>b. None) [0] [''/p/readme.md''])
   \<and> \<not> watch_ignore id (\<lambda>b. None) [0] ''/p/readme.md''"
  using unset_files_always_selected [of 0 "[0]" "\<lambda>b. None" id "[''/p/readme.md'']" "''/p/readme.md''"]
  by simp

text \<open>
  C4. With two bundlers, the first one without \<^verbatim>\<open>files\<close> and the second one
  tracking only \<^verbatim>\<open>/p/src/b.css\<close>, a change of \<^verbatim>\<open>/p/src/util.js\<close> selects the first
  bundler, whose \<^verbatim>\<open>files\<close> list does not contain the changed path.
\<close>

theorem filterChangedBundles_selects_untracked:
  "filterChangedBundles id (\<lambda>b. if b = 0 then None else Some [''/p/src/b.css''])
     [0, 1] [''/p/src/util.js''] = [0]"
  by (simp add: filterChangedBundles_def changed_callback_def)

section \<open>Properties of entry resolution\<close>





section \<open>Properties of the scheduler\<close>

subsection \<open>The microtask queue and reachable states\<close>

lemma drain_Nil: "microtasks s = [] \<Longrightarrow> drain bundlers realpathSync s = s"
  by (subst drain.simps) simp

lemma drain_Cons:
  "microtasks s = k # ks \<Longrightarrow>
   drain bundlers realpathSync s =
     drain bundlers realpathSync (exec_cont bundlers realpathSync k (s\<lparr>microtasks := ks\<rparr>))"
  by (subst drain.simps) simp

lemma drain_invariant:
  assumes "Q s"
    and "\<And>t k ks. Q t \<Longrightarrow> microtasks t = k # ks \<Longrightarrow>
           Q (exec_cont bundlers realpathSync k (t\<lparr>microtasks := ks\<rparr>))"
  shows "Q (drain bundlers realpathSync s)"
  using assms
proof (induction bundlers realpathSync s rule: drain.induct)
  case (1 bundlers realpathSync s)
  show ?case
  proof (cases "microtasks s")
    case Nil
    then show ?thesis using "1.prems"(1) by (simp add: drain_Nil)
  next
    case (Cons k ks)
    have "Q (exec_cont bundlers realpathSync k (s\<lparr>microtasks := ks\<rparr>))"
      by (rule "1.prems"(2) [OF "1.prems"(1) Cons])
    then have "Q (drain bundlers realpathSync (exec_cont bundlers realpathSync k (s\<lparr>microtasks := ks\<rparr>)))"
      by (rule "1.IH" [OF Cons]) (rule "1.prems"(2))
    then show ?thesis
      by (simp add: drain_Cons [OF Cons])
  qed
qed


lemma step_invariant:
  assumes "Q s"
    and "\<And>t k ks. Q t \<Longrightarrow> microtasks t = k # ks \<Longrightarrow>
           Q (exec_cont bundlers realpathSync k (t\<lparr>microtasks := ks\<rparr>))"
    and "\<And>t. Q t \<Longrightarrow> Q (on_timeout t)"
    and "\<And>t. Q t \<Longrightarrow> Q (handle bundlers realpathSync (fst ev) (snd ev) t)"
  shows "Q (step bundlers realpathSync ev s)"
proof -
  have "Q (expire bundlers realpathSync (fst ev) s)"
  proof (cases "timer_due (fst ev) s")
    case True
    have "Q (drain bundlers realpathSync (on_timeout s))"
    proof (rule drain_invariant [where Q = Q])
      show "Q (on_timeout s)" by (rule assms(3) [OF assms(1)])
    qed (rule assms(2))
    then show ?thesis using True by (simp add: expire_def)
  next
    case False
    then show ?thesis using assms(1) by (simp add: expire_def)
  qed
  then have "Q (handle bundlers realpathSync (fst ev) (snd ev) (expire bundlers realpathSync (fst ev) s))"
    by (rule assms(4))
  then show ?thesis
    unfolding step_def by (rule drain_invariant [where Q = Q]) (rule assms(2))
qed

lemma reachable_invariant:
  assumes "reachable bundlers realpathSync s"
    and "\<And>files0. Q (init_state files0)"
    and "\<And>t k ks. Q t \<Longrightarrow> microtasks t = k # ks \<Longrightarrow>
           Q (exec_cont bundlers realpathSync k (t\<lparr>microtasks := ks\<rparr>))"
    and "\<And>t. Q t \<Longrightarrow> Q (on_timeout t)"
    and "\<And>t now inp. Q t \<Longrightarrow> Q (handle bundlers realpathSync now inp t)"
  shows "Q s"
  using assms(1)
proof (induction rule: reachable.induct)
  case (reachable_init files0)
  show ?case by (rule assms(2))
next
  case (reachable_step s ev)
  show ?case
  proof (rule step_invariant [where Q = Q])
    show "Q s" by (rule reachable_step.IH)
  qed (rule assms(3), assumption, assumption, rule assms(4), assumption, rule assms(5), assumption)
qed


subsection \<open>One cycle at a time\<close>

lemma excl_inv_init: "excl_inv (init_state files0)"
  by (simp add: excl_inv_def init_state_def closed_down_def jobs_next_def one_each_def
        jobs_ready_def flight_ready_def)

lemma no_job_iff: "filter is_job ks = [] \<longleftrightarrow> (\<forall>q b ivs. RunJob q b ivs \<notin> set ks)"
proof
  assume "filter is_job ks = []"
  then have "\<forall>k \<in> set ks. \<not> is_job k" by (simp add: filter_empty_conv)
  then show "\<forall>q b ivs. RunJob q b ivs \<notin> set ks" by fastforce
next
  assume a: "\<forall>q b ivs. RunJob q b ivs \<notin> set ks"
  have "\<not> is_job k" if "k \<in> set ks" for k
  proof (cases k)
    case (RunJob q b ivs)
    then show ?thesis using that a by blast
  qed simp_all
  then show "filter is_job ks = []" by (simp add: filter_empty_conv)
qed

lemma closed_down_all: "closed_down st p \<Longrightarrow> st p \<Longrightarrow> j \<le> p \<Longrightarrow> st j"
  unfolding closed_down_def by blast

lemma ready_not_all: "closed_down st p \<Longrightarrow> st p \<Longrightarrow> \<not> ready st p q"
  unfolding ready_def using closed_down_all by blast

lemma closed_down_new: "closed_down st p \<Longrightarrow> closed_down (st(Suc p := False)) (Suc p)"
  unfolding closed_down_def by (auto simp: le_Suc_eq)

lemma ready_new: "ready st p q \<Longrightarrow> ready (st(Suc p := False)) (Suc p) q"
  unfolding ready_def by auto

lemma ready_fresh: "closed_down st p \<Longrightarrow> st p \<Longrightarrow> ready (st(Suc p := False)) (Suc p) (Suc p)"
  unfolding ready_def by auto

lemma jobs_next_reset: "jobs_next p rs \<Longrightarrow> jobs_next (Suc p) (rs(Suc p := []))"
  unfolding jobs_next_def by (auto simp: less_Suc_eq)

lemma jobs_next_none_last: "jobs_next p rs \<Longrightarrow> filter is_job (rs p) = []"
  unfolding jobs_next_def no_job_iff by blast

lemma jobs_next_chain:
  "jobs_next p rs \<Longrightarrow> jobs_next (Suc p) ((rs(Suc p := []))(p := rs p @ [RunJob (Suc p) b ivs]))"
  unfolding jobs_next_def by (auto simp: less_Suc_eq)

lemma one_each_reset: "one_each rs \<Longrightarrow> one_each (rs(i := []))"
  unfolding one_each_def by auto

lemma one_each_chain:
  "one_each rs \<Longrightarrow> jobs_next p rs \<Longrightarrow> one_each ((rs(Suc p := []))(p := rs p @ [RunJob (Suc p) b ivs]))"
  using jobs_next_none_last [of p rs] unfolding one_each_def by auto

lemma excl_inv_then_job:
  assumes "excl_inv s"
  shows "excl_inv (then_job b ivs s)"
proof (cases "settled s (promise s)")
  case True
  have cd: "closed_down (settled s) (promise s)" using assms by (simp add: excl_inv_def)
  have nom: "filter is_job (microtasks s) = []"
    using assms ready_not_all [OF cd True] unfolding excl_inv_def jobs_ready_def no_job_iff by blast
  have nof: "inflight s = []"
  proof (cases "inflight s")
    case (Cons x xs)
    obtain q b ivs where "x = (q, b, ivs)" by (cases x)
    then have "ready (settled s) (promise s) q"
      using assms Cons unfolding excl_inv_def flight_ready_def by auto
    then show ?thesis using ready_not_all [OF cd True] by blast
  qed simp
  have "jobs_ready ((settled s)(Suc (promise s) := False)) (Suc (promise s))
          (microtasks s @ [RunJob (Suc (promise s)) b ivs])"
    using assms ready_fresh [OF cd True] unfolding excl_inv_def jobs_ready_def
    by (auto intro: ready_new)
  then show ?thesis
    using assms True nom nof unfolding excl_inv_def then_job_def Let_def
    by (simp add: closed_down_new jobs_next_reset one_each_reset flight_ready_def)
next
  case False
  have "jobs_ready ((settled s)(Suc (promise s) := False)) (Suc (promise s)) (microtasks s)"
    using assms unfolding excl_inv_def jobs_ready_def by (auto intro: ready_new)
  moreover have "flight_ready ((settled s)(Suc (promise s) := False)) (Suc (promise s)) (inflight s)"
    using assms unfolding excl_inv_def flight_ready_def by (auto intro: ready_new)
  ultimately show ?thesis
    using assms False unfolding excl_inv_def then_job_def Let_def
    by (simp add: closed_down_new jobs_next_chain one_each_chain)
qed

lemma jobs_next_add:
  "jobs_next p rs \<Longrightarrow> \<not> is_job k \<Longrightarrow> jobs_next p (rs(i := rs i @ [k]))"
  unfolding jobs_next_def by auto

lemma one_each_add:
  "one_each rs \<Longrightarrow> \<not> is_job k \<Longrightarrow> one_each (rs(i := rs i @ [k]))"
  unfolding one_each_def by auto

lemma jobs_ready_add:
  "jobs_ready st p ks \<Longrightarrow> \<not> is_job k \<Longrightarrow> jobs_ready st p (ks @ [k])"
  unfolding jobs_ready_def by auto

lemma excl_inv_await:
  assumes "excl_inv s" and "\<not> is_job k"
  shows "excl_inv (await_promise k s)"
  using assms unfolding excl_inv_def await_promise_def Let_def
  by (simp add: jobs_next_add one_each_add jobs_ready_add)

lemma excl_inv_statuses [simp]: "excl_inv (s\<lparr>statuses := x\<rparr>) = excl_inv s"
  by (simp add: excl_inv_def)
lemma excl_inv_logger [simp]: "excl_inv (s\<lparr>logger := y\<rparr>) = excl_inv s"
  by (simp add: excl_inv_def)
lemma excl_inv_bundle_files [simp]: "excl_inv (s\<lparr>bundle_files := z\<rparr>) = excl_inv s"
  by (simp add: excl_inv_def)
lemma excl_inv_collectedFiles [simp]: "excl_inv (s\<lparr>collectedFiles := c\<rparr>) = excl_inv s"
  by (simp add: excl_inv_def)
lemma excl_inv_timeout [simp]: "excl_inv (s\<lparr>timeout := d\<rparr>) = excl_inv s"
  by (simp add: excl_inv_def)

lemma excl_inv_reBuild:
  assumes "excl_inv s"
  shows "excl_inv (reBuild b f s)"
  using assms unfolding reBuild_def Let_def
  by (auto split: option.splits intro!: excl_inv_await excl_inv_then_job)

lemma excl_inv_fold_reBuild:
  "excl_inv s \<Longrightarrow> excl_inv (fold (\<lambda>b. reBuild b f) bs s)"
  by (induction bs arbitrary: s) (auto intro: excl_inv_reBuild)

lemma excl_inv_pop:
  assumes "excl_inv s" and "microtasks s = k # ks"
  shows "excl_inv (s\<lparr>microtasks := ks\<rparr>)"
  using assms unfolding excl_inv_def jobs_ready_def by (auto split: if_splits)

lemma excl_inv_exec:
  assumes "excl_inv s" and "microtasks s = k # ks"
  shows "excl_inv (exec_cont bundlers realpathSync k (s\<lparr>microtasks := ks\<rparr>))"
proof (cases k)
  case (RunJob q b ivs)
  have "length (filter is_job (microtasks s)) + length (inflight s) \<le> 1"
    using assms by (simp add: excl_inv_def)
  then have e: "inflight s = []" "filter is_job ks = []"
    using assms(2) RunJob by auto
  have "ready (settled s) (promise s) q"
    using assms RunJob unfolding excl_inv_def jobs_ready_def by auto
  then show ?thesis
    using assms RunJob e unfolding excl_inv_def
    by (simp add: flight_ready_def jobs_ready_def)
next
  case (ReBuildResume b)
  then show ?thesis
    using excl_inv_pop [OF assms] by (auto intro: excl_inv_reBuild)
next
  case (FlushResume files)
  then show ?thesis
    using excl_inv_pop [OF assms] by (auto simp: Let_def intro: excl_inv_fold_reBuild)
qed

lemma excl_inv_on_timeout: "excl_inv s \<Longrightarrow> excl_inv (on_timeout s)"
  by (auto simp: on_timeout_def Let_def intro: excl_inv_await)

lemma closed_down_settle:
  "closed_down st p \<Longrightarrow> ready st p q \<Longrightarrow> closed_down (st(q := True)) p"
proof -
  assume cd: "closed_down st p" and r: "ready st p q"
  have below: "st j" if "j < q" for j
  proof -
    have "j \<le> q - 1" "q - 1 \<le> p" using that r by (auto simp: ready_def)
    then show ?thesis using cd r unfolding closed_down_def ready_def by blast
  qed
  have above: "\<not> st i" if "q \<le> i" "i \<le> p" for i
    using cd r that unfolding closed_down_def ready_def by blast
  show ?thesis
    unfolding closed_down_def
  proof (intro conjI allI impI)
    show "(st(q := True)) 0" using cd by (simp add: closed_down_def)
  next
    fix i j
    assume a: "j \<le> i \<and> i \<le> p \<and> (st(q := True)) i"
    show "(st(q := True)) j"
    proof (cases "j < q")
      case True
      then show ?thesis using below by simp
    next
      case False
      then have "q \<le> i" using a by simp
      then have "i = q" using a above [of i] by (auto split: if_splits)
      then show ?thesis using a False by simp
    qed
  qed
qed

lemma ready_next:
  "closed_down st p \<Longrightarrow> ready st p q \<Longrightarrow> q < p \<Longrightarrow> ready (st(q := True)) p (Suc q)"
  unfolding closed_down_def ready_def
  by (metis Suc_leI diff_Suc_1 fun_upd_apply le_refl lessI less_or_eq_imp_le n_not_Suc_n zero_less_Suc)

lemma excl_inv_job_settled:
  assumes "excl_inv s"
  shows "excl_inv (job_settled q r s)"
proof (cases "q \<in> fst ` set (inflight s)")
  case False
  then show ?thesis using assms by (simp add: job_settled_def)
next
  case True
  then obtain b ivs where m: "(q, b, ivs) \<in> set (inflight s)" by force
  have "length (filter is_job (microtasks s)) + length (inflight s) \<le> 1"
    using assms by (simp add: excl_inv_def)
  then have one: "inflight s = [(q, b, ivs)]" and nom: "filter is_job (microtasks s) = []"
    using m by (cases "inflight s"; auto)+
  have cd: "closed_down (settled s) (promise s)" using assms by (simp add: excl_inv_def)
  have r: "ready (settled s) (promise s) q"
    using assms m unfolding excl_inv_def flight_ready_def by blast
  have jn: "jobs_next (promise s) (reactions s)" using assms by (simp add: excl_inv_def)
  have oe: "one_each (reactions s)" using assms by (simp add: excl_inv_def)
  have "jobs_ready ((settled s)(q := True)) (promise s) (microtasks s @ reactions s q)"
    unfolding jobs_ready_def
  proof (intro allI impI)
    fix q' b' ivs'
    assume "RunJob q' b' ivs' \<in> set (microtasks s @ reactions s q)"
    then have "RunJob q' b' ivs' \<in> set (reactions s q)"
      using nom unfolding no_job_iff by auto
    then have "q' = Suc q \<and> q < promise s" using jn unfolding jobs_next_def by blast
    then show "ready ((settled s)(q := True)) (promise s) q'"
      using ready_next [OF cd r] by simp
  qed
  moreover have "jobs_next (promise s) ((reactions s)(q := []))"
    using jn unfolding jobs_next_def by auto
  moreover have "length (filter is_job (reactions s q)) \<le> 1"
    using oe unfolding one_each_def by blast
  ultimately show ?thesis
    using True one nom oe unfolding excl_inv_def job_settled_def
    by (simp add: closed_down_settle [OF cd r] one_each_reset flight_ready_def)
qed

lemma excl_inv_handle: "excl_inv s \<Longrightarrow> excl_inv (handle bundlers realpathSync now inp s)"
  by (cases inp) (auto simp: project_watch_def on_change_def intro: excl_inv_job_settled)



subsection \<open>Cycles start in the order in which they are chained\<close>

lemma order_inv_init: "order_inv (init_state files0)"
  by (simp add: order_inv_def init_state_def jobs_recorded_def jobs_numbered_def)

lemma jobs_recorded_next:
  assumes "jobs_recorded ch ks"
    and "\<And>q b ivs. RunJob q b ivs \<in> set ks \<Longrightarrow> 0 < q \<and> q \<le> length ch"
  shows "jobs_recorded (ch @ [x]) ks"
  unfolding jobs_recorded_def
proof (intro allI impI)
  fix q b ivs
  assume a: "RunJob q b ivs \<in> set ks"
  have "q - 1 < length ch" using assms(2) [OF a] by auto
  moreover have "ch ! (q - 1) = (b, ivs)" using assms(1) a unfolding jobs_recorded_def by blast
  ultimately show "(ch @ [x]) ! (q - 1) = (b, ivs)" by (simp add: nth_append)
qed

lemma jobs_recorded_add:
  assumes "jobs_recorded ch ks" and "\<not> is_job k"
  shows "jobs_recorded ch (ks @ [k])"
proof -
  have "k \<noteq> RunJob q b ivs" for q b ivs using assms(2) by auto
  then show ?thesis using assms(1) unfolding jobs_recorded_def by auto
qed

lemma jobs_numbered_add:
  assumes "jobs_numbered n ks" and "\<not> is_job k"
  shows "jobs_numbered n (ks @ [k])"
  unfolding jobs_numbered_def
proof (intro allI impI)
  fix q b ivs
  assume a: "RunJob q b ivs \<in> set (ks @ [k])"
  have "k \<noteq> RunJob q b ivs" using assms(2) by auto
  then have "RunJob q b ivs \<in> set ks" using a by simp
  then show "q = Suc n" using assms(1) unfolding jobs_numbered_def by blast
qed

lemma order_inv_then_job:
  assumes "excl_inv s" and "order_inv s"
  shows "order_inv (then_job b ivs s)"
proof -
  let ?p = "promise s"
  let ?ch = "chained s @ [(b, ivs)]"
  have len: "length (chained s) = ?p" using assms(2) by (simp add: order_inv_def)
  have jn: "jobs_next ?p (reactions s)" and jm: "jobs_ready (settled s) ?p (microtasks s)"
    and fr: "flight_ready (settled s) ?p (inflight s)"
    using assms(1) by (simp_all add: excl_inv_def)
  have r_old: "jobs_recorded ?ch (reactions s i)" for i
  proof (rule jobs_recorded_next)
    show "jobs_recorded (chained s) (reactions s i)" using assms(2) by (simp add: order_inv_def)
    show "0 < q \<and> q \<le> length (chained s)" if "RunJob q b ivs \<in> set (reactions s i)" for q b ivs
      using jn len that unfolding jobs_next_def by fastforce
  qed
  have m_old: "jobs_recorded ?ch (microtasks s)"
  proof (rule jobs_recorded_next)
    show "jobs_recorded (chained s) (microtasks s)" using assms(2) by (simp add: order_inv_def)
    show "0 < q \<and> q \<le> length (chained s)" if "RunJob q b ivs \<in> set (microtasks s)" for q b ivs
      using jm len that unfolding jobs_ready_def ready_def by fastforce
  qed
  have f_old: "\<forall>q b' ivs'. (q, b', ivs') \<in> set (inflight s) \<longrightarrow>
         ?ch ! (q - 1) = (b', ivs') \<and> length (started s) = q"
  proof (intro allI impI)
    fix q b' ivs'
    assume a: "(q, b', ivs') \<in> set (inflight s)"
    then have "ready (settled s) ?p q" using fr unfolding flight_ready_def by blast
    then have "q - 1 < length (chained s)" using len by (auto simp: ready_def)
    moreover have "chained s ! (q - 1) = (b', ivs') \<and> length (started s) = q"
      using a assms(2) unfolding order_inv_def by blast
    ultimately show "?ch ! (q - 1) = (b', ivs') \<and> length (started s) = q"
      by (simp add: nth_append)
  qed
  have s_old: "\<forall>j \<le> Suc ?p. ((settled s)(Suc ?p := False)) j \<longrightarrow> j \<le> length (started s)"
    using assms(2) by (auto simp: order_inv_def le_Suc_eq)
  have l_old: "length (started s) \<le> ?p" using assms(2) by (simp add: order_inv_def)
  have "started s = take (length (started s)) (chained s)"
    using assms(2) by (simp add: order_inv_def)
  then have t_old: "started s = take (length (started s)) ?ch"
    using l_old len by simp
  have new: "?ch ! (Suc ?p - 1) = (b, ivs)"
    using len by (simp add: nth_append)
  have q_old: "jobs_numbered (length (started s)) (microtasks s)"
    using assms(2) by (simp add: order_inv_def)
  show ?thesis
  proof (cases "settled s ?p")
    case True
    have "?p \<le> length (started s)" using assms(2) True by (simp add: order_inv_def)
    then have eq: "length (started s) = ?p" using l_old by simp
    have "jobs_recorded ?ch (microtasks s @ [RunJob (Suc ?p) b ivs])"
      using m_old new unfolding jobs_recorded_def by auto
    moreover have "jobs_numbered (length (started s)) (microtasks s @ [RunJob (Suc ?p) b ivs])"
      using q_old eq unfolding jobs_numbered_def by auto
    moreover have "\<forall>i. jobs_recorded ?ch (((reactions s)(Suc ?p := [])) i)"
      using r_old by (simp add: jobs_recorded_def)
    moreover have "length (started s) \<le> Suc ?p" using l_old by simp
    ultimately show ?thesis
      using True len f_old s_old t_old unfolding order_inv_def then_job_def Let_def
      by simp
  next
    case False
    have "\<forall>i. jobs_recorded ?ch
        (((reactions s)(Suc ?p := [], ?p := reactions s ?p @ [RunJob (Suc ?p) b ivs])) i)"
      using r_old new unfolding jobs_recorded_def by auto
    moreover have "length (started s) \<le> Suc ?p" using l_old by simp
    ultimately show ?thesis
      using False len m_old q_old f_old s_old t_old unfolding order_inv_def then_job_def Let_def
      by simp
  qed
qed

lemma order_inv_await:
  assumes "order_inv s" and "\<not> is_job k"
  shows "order_inv (await_promise k s)"
proof (cases "settled s (promise s)")
  case True
  then show ?thesis
    using assms unfolding order_inv_def await_promise_def Let_def
    by (simp add: jobs_recorded_add jobs_numbered_add)
next
  case False
  have "\<forall>i. jobs_recorded (chained s) (((reactions s)(promise s := reactions s (promise s) @ [k])) i)"
    using assms by (simp add: order_inv_def jobs_recorded_add)
  then show ?thesis
    using False assms(1) unfolding order_inv_def await_promise_def Let_def
    by simp
qed

lemma order_inv_fields [simp]:
  "order_inv (s\<lparr>statuses := x\<rparr>) = order_inv s"
  "order_inv (s\<lparr>logger := y\<rparr>) = order_inv s"
  "order_inv (s\<lparr>bundle_files := z\<rparr>) = order_inv s"
  "order_inv (s\<lparr>collectedFiles := c\<rparr>) = order_inv s"
  "order_inv (s\<lparr>timeout := d\<rparr>) = order_inv s"
  by (simp_all add: order_inv_def)

lemma both_inv_reBuild:
  assumes "excl_inv s \<and> order_inv s"
  shows "excl_inv (reBuild b f s) \<and> order_inv (reBuild b f s)"
proof
  show "excl_inv (reBuild b f s)" using assms by (simp add: excl_inv_reBuild)
  show "order_inv (reBuild b f s)"
    using assms unfolding reBuild_def Let_def
    by (auto split: option.splits intro!: order_inv_await order_inv_then_job)
qed

lemma both_inv_fold_reBuild:
  "excl_inv s \<and> order_inv s \<Longrightarrow>
   excl_inv (fold (\<lambda>b. reBuild b f) bs s) \<and> order_inv (fold (\<lambda>b. reBuild b f) bs s)"
proof (induction bs arbitrary: s)
  case Nil
  then show ?case by simp
next
  case (Cons b bs)
  show ?case using Cons.IH [OF both_inv_reBuild [OF Cons.prems]] by simp
qed

lemma order_inv_pop:
  assumes "order_inv s" and "microtasks s = k # ks"
  shows "order_inv (s\<lparr>microtasks := ks\<rparr>)"
  using assms unfolding order_inv_def jobs_recorded_def jobs_numbered_def by auto

lemma order_inv_exec:
  assumes "excl_inv s" and "order_inv s" and "microtasks s = k # ks"
  shows "order_inv (exec_cont bundlers realpathSync k (s\<lparr>microtasks := ks\<rparr>))"
proof (cases k)
  case (RunJob q b ivs)
  have "length (filter is_job (microtasks s)) + length (inflight s) \<le> 1"
    using assms(1) by (simp add: excl_inv_def)
  then have e: "inflight s = []" "filter is_job ks = []"
    using assms(3) RunJob by auto
  then have nk: "\<And>q b ivs. RunJob q b ivs \<notin> set ks" by (simp add: no_job_iff)
  have r: "ready (settled s) (promise s) q"
    using assms(1,3) RunJob unfolding excl_inv_def jobs_ready_def by auto
  have c: "chained s ! (q - 1) = (b, ivs)" and l: "q = Suc (length (started s))"
    using assms(2,3) RunJob unfolding order_inv_def jobs_recorded_def jobs_numbered_def by auto
  have len: "length (chained s) = promise s" using assms(2) by (simp add: order_inv_def)
  have lt: "length (started s) < length (chained s)" using r len l by (auto simp: ready_def)
  have st: "started s = take (length (started s)) (chained s)"
    using assms(2) by (simp add: order_inv_def)
  have "take (Suc (length (started s))) (chained s)
      = take (length (started s)) (chained s) @ [chained s ! length (started s)]"
    using lt by (rule take_Suc_conv_app_nth)
  then have t7: "started s @ [(b, ivs)] = take (length (started s @ [(b, ivs)])) (chained s)"
    using st c l by simp
  have t5: "\<forall>j \<le> promise s. settled s j \<longrightarrow> j \<le> length (started s @ [(b, ivs)])"
    using assms(2) by (auto simp: order_inv_def)
  have t6: "length (started s @ [(b, ivs)]) \<le> promise s"
    using lt len by simp
  have t4: "chained s ! (q - 1) = (b, ivs) \<and> length (started s @ [(b, ivs)]) = q"
    using c l by simp
  have t3: "jobs_recorded (chained s) ks" "jobs_numbered (length (started s @ [(b, ivs)])) ks"
    using nk by (simp_all add: jobs_recorded_def jobs_numbered_def)
  have t1: "length (chained s) = promise s" "\<forall>i. jobs_recorded (chained s) (reactions s i)"
    using assms(2) by (simp_all add: order_inv_def)
  show ?thesis
    unfolding order_inv_def using t1 t3 t4 t5 t6 t7 e(1)
    by (simp add: RunJob)
next
  case (ReBuildResume b)
  have "excl_inv (s\<lparr>microtasks := ks\<rparr>) \<and> order_inv (s\<lparr>microtasks := ks\<rparr>)"
    using excl_inv_pop [OF assms(1,3)] order_inv_pop [OF assms(2,3)] by simp
  then show ?thesis
    using both_inv_reBuild [of "s\<lparr>microtasks := ks,
        statuses := (statuses s)(b \<mapsto> (status_of s b)\<lparr>running := False\<rparr>)\<rparr>" b None]
    by (simp add: ReBuildResume status_of_def)
next
  case (FlushResume files)
  have "excl_inv (s\<lparr>microtasks := ks\<rparr>) \<and> order_inv (s\<lparr>microtasks := ks\<rparr>)"
    using excl_inv_pop [OF assms(1,3)] order_inv_pop [OF assms(2,3)] by simp
  then show ?thesis
    using both_inv_fold_reBuild [of "s\<lparr>microtasks := ks, logger := logger s @ [Newline]\<rparr>" "Some files"
        "filterChangedBundles realpathSync (bundle_files s) bundlers files"]
    by (simp add: FlushResume Let_def)
qed

lemma order_inv_job_settled:
  assumes "excl_inv s" and "order_inv s"
  shows "order_inv (job_settled q r s)"
proof (cases "q \<in> fst ` set (inflight s)")
  case False
  then show ?thesis using assms by (simp add: job_settled_def)
next
  case True
  then obtain b ivs where m: "(q, b, ivs) \<in> set (inflight s)" by force
  have "length (filter is_job (microtasks s)) + length (inflight s) \<le> 1"
    using assms(1) by (simp add: excl_inv_def)
  then have one: "inflight s = [(q, b, ivs)]" and nom: "filter is_job (microtasks s) = []"
    using m by (cases "inflight s"; auto)+
  have fl: "filter (\<lambda>j. fst j \<noteq> q) (inflight s) = []" using one by simp
  have nk: "\<And>q b ivs. RunJob q b ivs \<notin> set (microtasks s)" using nom by (simp add: no_job_iff)
  have jn: "jobs_next (promise s) (reactions s)" using assms(1) by (simp add: excl_inv_def)
  have lq: "length (started s) = q" using assms(2) m unfolding order_inv_def by blast
  have rq: "q' = Suc q" if "RunJob q' b' ivs' \<in> set (reactions s q)" for q' b' ivs'
    using jn that unfolding jobs_next_def by blast
  have t3: "jobs_recorded (chained s) (microtasks s @ reactions s q)"
    using assms(2) unfolding order_inv_def jobs_recorded_def by auto
  have t3': "jobs_numbered (length (started s)) (microtasks s @ reactions s q)"
    using nk rq lq unfolding jobs_numbered_def by auto
  have t2: "\<forall>i. jobs_recorded (chained s) (((reactions s)(q := [])) i)"
    using assms(2) unfolding order_inv_def jobs_recorded_def by auto
  have t5: "\<forall>j \<le> promise s. ((settled s)(q := True)) j \<longrightarrow> j \<le> length (started s)"
    using assms(2) lq unfolding order_inv_def by auto
  have t1: "length (chained s) = promise s" "length (started s) \<le> promise s"
      "started s = take (length (started s)) (chained s)"
    using assms(2) by (simp_all add: order_inv_def)
  show ?thesis
    unfolding order_inv_def job_settled_def using True fl t1 t2 t3 t3' t5
    by simp
qed

lemma both_inv_reachable:
  assumes "reachable bundlers realpathSync s"
  shows "excl_inv s \<and> order_inv s"
proof (rule reachable_invariant [where Q = "\<lambda>t. excl_inv t \<and> order_inv t", OF assms])
  show "excl_inv (init_state files0) \<and> order_inv (init_state files0)" for files0
    by (simp add: excl_inv_init order_inv_init)
  show "excl_inv (exec_cont bundlers realpathSync k (t\<lparr>microtasks := ks\<rparr>))
      \<and> order_inv (exec_cont bundlers realpathSync k (t\<lparr>microtasks := ks\<rparr>))"
    if "excl_inv t \<and> order_inv t" "microtasks t = k # ks" for t k ks
    using that by (simp add: excl_inv_exec order_inv_exec)
  show "excl_inv (on_timeout t) \<and> order_inv (on_timeout t)" if "excl_inv t \<and> order_inv t" for t
  proof
    show "excl_inv (on_timeout t)" using that by (simp add: excl_inv_on_timeout)
    show "order_inv (on_timeout t)"
      using that by (auto simp: on_timeout_def Let_def intro: order_inv_await)
  qed
  show "excl_inv (handle bundlers realpathSync now inp t) \<and> order_inv (handle bundlers realpathSync now inp t)"
    if "excl_inv t \<and> order_inv t" for t now inp
  proof
    show "excl_inv (handle bundlers realpathSync now inp t)" using that by (simp add: excl_inv_handle)
    show "order_inv (handle bundlers realpathSync now inp t)"
      using that
      by (cases inp) (auto simp: project_watch_def on_change_def intro: order_inv_job_settled)
  qed
qed

text \<open>
  C1 (as amended). Every rebuild cycle of every bundler is appended to the one
  promise chain of the watch closure. In every state the closure can reach, at
  most one \<^verbatim>\<open>build()\<close>+\<^verbatim>\<open>write()\<close> sequence is in flight over all bundlers
  together (hence at most one per bundler); while a cycle is in flight its own
  promise is pending and every promise chained before it is settled; and the
  cycles are started in the order in which they were chained: the cycles
  started are the first ones of the list of cycles chained, and the cycle in
  flight is the last one started. A cycle therefore starts only after all cycles
  chained earlier, of whatever bundler, have ended.
\<close>

theorem rebuilds_share_one_chain:
  assumes "reachable bundlers realpathSync s"
  shows "length (inflight s) \<le> 1
       \<and> (\<forall>job \<in> set (inflight s). \<forall>j < fst job. settled s j)
       \<and> (\<forall>job \<in> set (inflight s). \<not> settled s (fst job) \<and> fst job \<le> promise s)
       \<and> (\<forall>job \<in> set (inflight s).
             length (started s) = fst job \<and> chained s ! (fst job - 1) = snd job)
       \<and> started s = take (length (started s)) (chained s)
       \<and> length (chained s) = promise s"
proof -
  have inv: "excl_inv s" and ord: "order_inv s"
    using both_inv_reachable [OF assms] by simp_all
  then have cd: "closed_down (settled s) (promise s)"
    and fr: "flight_ready (settled s) (promise s) (inflight s)"
    and len: "length (filter is_job (microtasks s)) + length (inflight s) \<le> 1"
    by (simp_all add: excl_inv_def)
  have r: "ready (settled s) (promise s) (fst job)" if "job \<in> set (inflight s)" for job
    using fr that unfolding flight_ready_def by (cases job) auto
  have "settled s j" if "job \<in> set (inflight s)" "j < fst job" for job j
  proof -
    have "j \<le> fst job - 1" "fst job - 1 \<le> promise s" "settled s (fst job - 1)"
      using r [OF that(1)] that(2) by (auto simp: ready_def)
    then show ?thesis using cd unfolding closed_down_def by blast
  qed
  moreover have "length (started s) = fst job \<and> chained s ! (fst job - 1) = snd job"
    if "job \<in> set (inflight s)" for job
    using ord that unfolding order_inv_def by (cases job) auto
  moreover have "started s = take (length (started s)) (chained s)" "length (chained s) = promise s"
    using ord by (simp_all add: order_inv_def)
  ultimately show ?thesis using len r by (auto simp: ready_def)
qed

lemma reachable_run:
  "reachable bundlers realpathSync s \<Longrightarrow> reachable bundlers realpathSync (run bundlers realpathSync evs s)"
  unfolding run_def by (induction evs arbitrary: s) (auto intro: reachable_step)

text \<open>
  The state after one save of a file that both bundlers depend on is reachable;
  the cycle of bundler 0 is the only one in flight there.
\<close>

theorem rebuilds_share_one_chain_witness:
  "length (inflight (run [0, 1] id one_save (init_state shared_util))) \<le> 1
   \<and> inflight (run [0, 1] id one_save (init_state shared_util)) = [(1, 0, [''/p/src/util.js''])]
   \<and> started (run [0, 1] id one_save (init_state shared_util)) = [(0, [''/p/src/util.js''])]
   \<and> length (chained (run [0, 1] id one_save (init_state shared_util))) = 2"
proof -
  have "reachable [0, 1] id (run [0, 1] id one_save (init_state shared_util))"
    by (rule reachable_run) (rule reachable_init)
  from rebuilds_share_one_chain [OF this]
  have "length (inflight (run [0, 1] id one_save (init_state shared_util))) \<le> 1"
    and "length (chained (run [0, 1] id one_save (init_state shared_util)))
           = promise (run [0, 1] id one_save (init_state shared_util))"
    by blast+
  moreover have "inflight (run [0, 1] id one_save (init_state shared_util)) = [(1, 0, [''/p/src/util.js''])]"
    by code_simp
  moreover have "started (run [0, 1] id one_save (init_state shared_util)) = [(0, [''/p/src/util.js''])]"
    by code_simp
  moreover have "promise (run [0, 1] id one_save (init_state shared_util)) = 2"
    by code_simp
  ultimately show ?thesis by simp
qed

text \<open>
  C1 as stated fails. After one save of \<^verbatim>\<open>src/util.js\<close> both cycles are chained,
  but only the cycle of bundler 0 is started; the callback of bundler 1 is
  registered on the promise of bundler 0. It is still not started 700 ms later,
  and it starts in the turn in which the cycle of bundler 0 ends.
\<close>

theorem second_bundle_waits_for_first:
  "chained (run [0, 1] id one_save (init_state shared_util))
     = [(0, [''/p/src/util.js'']), (1, [''/p/src/util.js''])]
   \<and> inflight (run [0, 1] id one_save (init_state shared_util)) = [(1, 0, [''/p/src/util.js''])]
   \<and> reactions (run [0, 1] id one_save (init_state shared_util)) 1
     = [ReBuildResume 0, RunJob 2 1 [''/p/src/util.js'']]
   \<and> started (run [0, 1] id (one_save @ [(900, Tick)]) (init_state shared_util))
     = [(0, [''/p/src/util.js''])]
   \<and> started (run [0, 1] id (one_save @ [(900, Tick), (901, JobSettled 1 Completed)])
        (init_state shared_util))
     = [(0, [''/p/src/util.js'']), (1, [''/p/src/util.js''])]"
  by code_simp

subsection \<open>What reBuild and the continuations leave untouched\<close>

lemma reBuild_frame [simp]:
  "bundle_files (reBuild b f s) = bundle_files s"
  "collectedFiles (reBuild b f s) = collectedFiles s"
  "timeout (reBuild b f s) = timeout s"
  "inflight (reBuild b f s) = inflight s"
  "started (reBuild b f s) = started s"
  by (auto simp: reBuild_def then_job_def await_promise_def Let_def split: option.splits)

lemma fold_reBuild_frame [simp]:
  "bundle_files (fold (\<lambda>b. reBuild b f) bs s) = bundle_files s"
  "collectedFiles (fold (\<lambda>b. reBuild b f) bs s) = collectedFiles s"
  "timeout (fold (\<lambda>b. reBuild b f) bs s) = timeout s"
  "inflight (fold (\<lambda>b. reBuild b f) bs s) = inflight s"
  "started (fold (\<lambda>b. reBuild b f) bs s) = started s"
  by (induction bs arbitrary: s) simp_all

lemma exec_cont_frame [simp]:
  "bundle_files (exec_cont bundlers realpathSync k s) = bundle_files s"
  "collectedFiles (exec_cont bundlers realpathSync k s) = collectedFiles s"
  "timeout (exec_cont bundlers realpathSync k s) = timeout s"
  by (cases k; simp add: Let_def)+

lemma drain_frame [simp]:
  "bundle_files (drain bundlers realpathSync s) = bundle_files s"
  "collectedFiles (drain bundlers realpathSync s) = collectedFiles s"
  "timeout (drain bundlers realpathSync s) = timeout s"
proof -
  have "bundle_files (drain bundlers realpathSync s) = bundle_files s
      \<and> collectedFiles (drain bundlers realpathSync s) = collectedFiles s
      \<and> timeout (drain bundlers realpathSync s) = timeout s"
    by (rule drain_invariant [where Q = "\<lambda>t. bundle_files t = bundle_files s
          \<and> collectedFiles t = collectedFiles s \<and> timeout t = timeout s"]) simp_all
  then show "bundle_files (drain bundlers realpathSync s) = bundle_files s"
    "collectedFiles (drain bundlers realpathSync s) = collectedFiles s"
    "timeout (drain bundlers realpathSync s) = timeout s"
    by simp_all
qed

subsection \<open>The jobs a call of reBuild chains\<close>

lemma reBuild_chained:
  "chained (reBuild b (Some fs) s) = (if fs = [] then chained s else chained s @ [(b, fs)])"
  by (simp add: reBuild_def then_job_def await_promise_def Let_def)






subsection \<open>No path is kept in a status\<close>

lemma no_pending_reBuild: "no_pending s \<Longrightarrow> no_pending (reBuild b f s)"
  unfolding no_pending_def reBuild_def then_job_def await_promise_def Let_def status_of_def
  by (auto split: option.splits if_splits simp: empty_status_def)

lemma no_pending_fold_reBuild:
  "no_pending s \<Longrightarrow> no_pending (fold (\<lambda>b. reBuild b f) bs s)"
  by (induction bs arbitrary: s) (auto intro: no_pending_reBuild)

lemma no_pending_resume:
  "no_pending s \<Longrightarrow>
   no_pending (s\<lparr>statuses := (statuses s)(b \<mapsto> (status_of s b)\<lparr>running := False\<rparr>)\<rparr>)"
  unfolding no_pending_def status_of_def
  by (auto split: option.splits simp: empty_status_def)

lemma no_pending_fields [simp]:
  "no_pending (s\<lparr>microtasks := m\<rparr>) = no_pending s"
  "no_pending (s\<lparr>logger := l\<rparr>) = no_pending s"
  "no_pending (s\<lparr>inflight := i, started := st\<rparr>) = no_pending s"
  "no_pending (s\<lparr>bundle_files := bf\<rparr>) = no_pending s"
  by (simp_all add: no_pending_def)

lemma no_pending_exec:
  "no_pending s \<Longrightarrow> no_pending (exec_cont bundlers realpathSync k s)"
  by (cases k) (auto simp: Let_def intro: no_pending_reBuild no_pending_fold_reBuild no_pending_resume)


lemma reBuild_None_chained:
  "no_pending s \<Longrightarrow> chained (reBuild b None s) = chained s"
  unfolding no_pending_def reBuild_def status_of_def Let_def
  by (auto split: option.splits simp: empty_status_def)

lemma resume_chained:
  assumes "no_pending s"
  shows "chained (exec_cont bundlers realpathSync (ReBuildResume b) s) = chained s"
  using reBuild_None_chained [OF no_pending_resume [OF assms, of b]] by simp



subsection \<open>Untracked files\<close>

lemma untracked_ignored:
  "untracked realpathSync files_of bundlers file \<Longrightarrow> watch_ignore realpathSync files_of bundlers file"
proof -
  assume u: "untracked realpathSync files_of bundlers file"
  have "b \<notin> set (filterChangedBundles realpathSync files_of bundlers [file])" for b
    using u unfolding untracked_def filterChangedBundles_mem list_all_iff
    by (auto split: option.splits)
  then have "filterChangedBundles realpathSync files_of bundlers [file] = []"
    by (cases "filterChangedBundles realpathSync files_of bundlers [file]") auto
  then show ?thesis by (simp add: watch_ignore_def)
qed

lemma untracked_batch:
  assumes "list_all (untracked realpathSync files_of bundlers) files" and "files \<noteq> []"
  shows "filterChangedBundles realpathSync files_of bundlers files = []"
proof -
  have "b \<notin> set (filterChangedBundles realpathSync files_of bundlers files)" for b
  proof -
    obtain x where "x \<in> set files" using assms(2) by (cases files) auto
    then have "\<forall>b \<in> set bundlers. case files_of b of None \<Rightarrow> False
                  | Some fs \<Rightarrow> realpathSync x \<notin> set fs"
      using assms(1) unfolding untracked_def list_all_iff by blast
    moreover have "\<forall>y \<in> set files. \<forall>b \<in> set bundlers. case files_of b of None \<Rightarrow> False
                  | Some fs \<Rightarrow> realpathSync y \<notin> set fs"
      using assms(1) unfolding untracked_def list_all_iff by blast
    ultimately show ?thesis
      unfolding filterChangedBundles_mem by (fastforce split: option.splits)
  qed
  then show ?thesis
    by (cases "filterChangedBundles realpathSync files_of bundlers files") auto
qed

lemma step_quiet:
  assumes "microtasks s = []" and "timeout s = None" and "inflight s = []"
    and "quiet_input realpathSync (bundle_files s) bundlers (snd ev)"
  shows "step bundlers realpathSync ev s = s"
proof -
  have e: "expire bundlers realpathSync (fst ev) s = s"
    using assms(2) by (simp add: expire_def timer_due_def)
  have "handle bundlers realpathSync (fst ev) (snd ev) s = s"
    using assms(3,4) by (cases "snd ev") (auto simp: project_watch_def untracked_ignored job_settled_def)
  then show ?thesis
    using e assms(1) by (simp add: step_def drain_Nil)
qed

lemma run_quiet:
  assumes "microtasks s = []" and "timeout s = None" and "inflight s = []"
    and "\<forall>ev \<in> set evs. quiet_input realpathSync (bundle_files s) bundlers (snd ev)"
  shows "run bundlers realpathSync evs s = s"
  using assms(4) unfolding run_def
  by (induction evs) (simp_all add: step_quiet [OF assms(1,2,3)])

text \<open>
  C3 (as amended). Take any sequence of inputs, from the moment the watcher is
  attached, in which the resolved path (\<open>realpathSync\<close>) of every changed file is
  outside the \<^verbatim>\<open>files\<close> list of every bundler, every bundler has such a list and
  none replaces it. Then the state never changes: the ignore predicate rejects
  every event, no cycle is chained and \<^verbatim>\<open>build()\<close> is never called. And should the
  timer callback resume with a batch (not empty) of such paths, in whatever state, it selects
  no bundler and returns without calling \<^verbatim>\<open>reBuild\<close>.
\<close>

theorem untracked_changes_build_nothing:
  assumes "\<forall>ev \<in> set evs. quiet_input realpathSync files0 bundlers (snd ev)"
  shows "run bundlers realpathSync evs (init_state files0) = init_state files0
       \<and> started (run bundlers realpathSync evs (init_state files0)) = []
       \<and> chained (run bundlers realpathSync evs (init_state files0)) = []
       \<and> (\<forall>ev \<in> set evs. \<forall>eventType file. snd ev = FsEvent eventType file \<longrightarrow>
             watch_ignore realpathSync files0 bundlers file)
       \<and> (\<forall>s files. files \<noteq> [] \<and> list_all (untracked realpathSync (bundle_files s) bundlers) files \<longrightarrow>
             exec_cont bundlers realpathSync (FlushResume files) s = s)"
proof -
  have r: "run bundlers realpathSync evs (init_state files0) = init_state files0"
    by (rule run_quiet) (use assms in \<open>simp_all add: init_state_def\<close>)
  have i: "\<forall>ev \<in> set evs. \<forall>eventType file. snd ev = FsEvent eventType file \<longrightarrow>
             watch_ignore realpathSync files0 bundlers file"
    using assms untracked_ignored by fastforce
  have f: "\<forall>s files. files \<noteq> [] \<and> list_all (untracked realpathSync (bundle_files s) bundlers) files \<longrightarrow>
             exec_cont bundlers realpathSync (FlushResume files) s = s"
    by (simp add: untracked_batch)
  show ?thesis
    using r i f by (simp add: init_state_def)
qed

text \<open>
  The scenario of the specification: with the two bundlers above, a change of
  \<^verbatim>\<open>src/unrelated.txt\<close> triggers nothing.
\<close>

theorem untracked_changes_build_nothing_witness:
  "run [0, 1] id [(0, FsEvent Modify ''/p/src/unrelated.txt''), (200, Tick)] (init_state shared_util)
     = init_state shared_util
   \<and> started (run [0, 1] id [(0, FsEvent Modify ''/p/src/unrelated.txt''), (200, Tick)]
        (init_state shared_util)) = []"
proof -
  have "\<forall>ev \<in> set [(0::nat, FsEvent Modify ''/p/src/unrelated.txt''), (200, Tick)].
          quiet_input id shared_util [0, 1] (snd ev)"
    by (simp add: untracked_def shared_util_def)
  from untracked_changes_build_nothing [OF this] show ?thesis by blast
qed

text \<open>
  C3 as stated fails: the changed path \<^verbatim>\<open>/p/link/util.js\<close> is in no \<^verbatim>\<open>files\<close>
  list, but it resolves to \<^verbatim>\<open>/p/src/util.js\<close>, and \<^verbatim>\<open>build()\<close> is called.
\<close>

theorem symlinked_change_builds:
  "''/p/link/util.js'' \<notin> set (the (shared_util 0))
   \<and> ''/p/link/util.js'' \<notin> set (the (shared_util 1))
   \<and> started (run [0, 1] via_link [(0, FsEvent Modify ''/p/link/util.js''), (200, Tick)]
        (init_state shared_util)) = [(0, [''/p/link/util.js''])]"
  by code_simp

subsection \<open>Bursts of saves\<close>











subsection \<open>Batches that wait for the chain\<close>





subsection \<open>The log is only written\<close>





lemma status_of_relog [simp]: "status_of (s\<lparr>logger := l\<rparr>) b = status_of s b"
  by (simp add: status_of_def)





subsection \<open>After a job has ended\<close>












section \<open>Properties of the build action\<close>

lemma fold_reBuild_chained_subset:
  "set (chained (fold (\<lambda>b. reBuild b (Some fs)) bs s)) \<subseteq> set (chained s) \<union> (\<lambda>b. (b, fs)) ` set bs"
proof (induction bs arbitrary: s)
  case Nil
  show ?case by simp
next
  case (Cons b bs)
  have "set (chained (reBuild b (Some fs) s)) \<subseteq> set (chained s) \<union> {(b, fs)}"
    by (auto simp: reBuild_chained)
  then show ?case using Cons.IH [of "reBuild b (Some fs) s"] by auto
qed

lemma chained_known_exec:
  assumes "chained_known bundlers s"
  shows "chained_known bundlers (exec_cont bundlers realpathSync k s)"
proof (cases k)
  case (RunJob q b ivs)
  then show ?thesis using assms by (simp add: chained_known_def)
next
  case (ReBuildResume b)
  then show ?thesis
    using assms resume_chained [of s bundlers realpathSync b] no_pending_exec [of s bundlers realpathSync k]
    by (simp add: chained_known_def del: exec_cont.simps)
next
  case (FlushResume fs)
  let ?sel = "filterChangedBundles realpathSync (bundle_files s) bundlers fs"
  have sub: "set ?sel \<subseteq> set bundlers" by (auto simp: filterChangedBundles_def)
  have "set (chained (exec_cont bundlers realpathSync k s)) \<subseteq> set (chained s) \<union> (\<lambda>b. (b, fs)) ` set ?sel"
    using fold_reBuild_chained_subset [of fs ?sel "s\<lparr>logger := logger s @ [Newline]\<rparr>"]
    by (auto simp: FlushResume Let_def)
  then have "\<forall>job \<in> set (chained (exec_cont bundlers realpathSync k s)). fst job \<in> set bundlers"
    using assms sub unfolding chained_known_def by fastforce
  then show ?thesis
    using assms no_pending_exec [of s bundlers realpathSync k] by (simp add: chained_known_def)
qed

lemma chained_known_reachable:
  assumes "reachable bundlers realpathSync s"
  shows "chained_known bundlers s"
proof (rule reachable_invariant [where Q = "chained_known bundlers", OF assms])
  show "chained_known bundlers (init_state files0)" for files0
    by (simp add: chained_known_def no_pending_def init_state_def)
  show "chained_known bundlers (exec_cont bundlers realpathSync k (t\<lparr>microtasks := ks\<rparr>))"
    if "chained_known bundlers t" for t k ks
    using that by (intro chained_known_exec) (simp add: chained_known_def)
  show "chained_known bundlers (on_timeout t)" if "chained_known bundlers t" for t
    using that by (simp add: chained_known_def no_pending_def on_timeout_def await_promise_def Let_def)
  show "chained_known bundlers (handle bundlers realpathSync now inp t)"
    if "chained_known bundlers t" for t now inp
    using that
    by (cases inp)
      (auto simp: chained_known_def no_pending_def project_watch_def on_change_def job_settled_def)
qed

lemma action_ok_step:
  assumes "action_ok watch bundlers realpathSync a"
  shows "action_ok watch bundlers realpathSync (action_step watch bundlers realpathSync files0 i a)"
proof (cases i)
  case (InitialSettled b r)
  then show ?thesis
    using assms
    by (auto simp: action_ok_def initial_settled_def Let_def split: settlement.splits if_splits
          intro: reachable_init)
next
  case (Loop ev)
  then show ?thesis
    using assms
    by (auto simp: action_ok_def split: option.splits intro: reachable_step)
qed

lemma action_ok_run:
  "action_ok watch bundlers realpathSync a \<Longrightarrow>
   action_ok watch bundlers realpathSync (action_run watch bundlers realpathSync files0 ins a)"
  unfolding action_run_def
  by (induction ins arbitrary: a) (auto intro: action_ok_step)

text \<open>
  C7. Whatever the order of the inputs, if the watcher is attached after them,
  then the promise \<^verbatim>\<open>toPromise()\<close> of every bundler has been fulfilled and none
  was rejected, and every cycle that \<^verbatim>\<open>reBuild\<close> has chained is a cycle of one of
  the bundlers of the list, whose promise has been fulfilled. A file-system
  event that arrives while the watcher is not attached changes nothing.
\<close>

theorem watcher_follows_initial_builds:
  assumes "watcher (action_run watch bundlers realpathSync files0 ins action_start) = Some s"
  shows "all_fulfilled bundlers (initial (action_run watch bundlers realpathSync files0 ins action_start))
       \<and> rejected (action_run watch bundlers realpathSync files0 ins action_start) = None
       \<and> (\<forall>job \<in> set (chained s). fst job \<in> set bundlers
             \<and> initial (action_run watch bundlers realpathSync files0 ins action_start) (fst job) = Fulfilled)
       \<and> (\<forall>a ev. watcher a = None \<longrightarrow>
             action_step watch bundlers realpathSync files0 (Loop ev) a = a)"
proof -
  let ?a = "action_run watch bundlers realpathSync files0 ins action_start"
  have "action_ok watch bundlers realpathSync action_start"
    by (simp add: action_ok_def action_start_def)
  then have "action_ok watch bundlers realpathSync ?a" by (rule action_ok_run)
  then have ok: "rejected ?a = None" "all_fulfilled bundlers (initial ?a)"
      "reachable bundlers realpathSync s"
    using assms unfolding action_ok_def by blast+
  have "\<forall>job \<in> set (chained s). fst job \<in> set bundlers"
    using chained_known_reachable [OF ok(3)] by (simp add: chained_known_def)
  moreover have "initial ?a b = Fulfilled" if "b \<in> set bundlers" for b
    using ok(2) that by (simp add: all_fulfilled_def list_all_iff)
  ultimately show ?thesis using ok by auto
qed

theorem watcher_follows_initial_builds_witness:
  "map_option chained (watcher (action_run True [0, 1] id shared_util startup action_start))
     = Some [(0, [''/p/src/util.js'']), (1, [''/p/src/util.js''])]
   \<and> all_fulfilled [0, 1] (initial (action_run True [0, 1] id shared_util startup action_start))"
proof -
  have c: "map_option chained (watcher (action_run True [0, 1] id shared_util startup action_start))
     = Some [(0, [''/p/src/util.js'']), (1, [''/p/src/util.js''])]"
    by code_simp
  then obtain s where "watcher (action_run True [0, 1] id shared_util startup action_start) = Some s"
    by auto
  from watcher_follows_initial_builds [OF this] c show ?thesis by blast
qed

section \<open>Properties of WebManifestBundler.setup\<close>




end
